theory Spec2Isabelle
  imports Complex_Main "HOL-Library.Sublist" "HOL-Library.Multiset"
begin

section \<open>OTU clustering (agc.py): data model\<close>

text \<open>
  The exceptions the clustering code can raise: an index out of range, a division by
  zero, and a failure of the external aligner (nwalign3), which is a parameter of the
  model.
\<close>

datatype py_error = IndexError | ZeroDivisionError | AlignerError

text \<open>
  An abundance record is the two-element list \<^verbatim>\<open>[sequence, count]\<close> of the source; an OTU
  record is one of these lists, stored in \<^verbatim>\<open>list_OTU\<close>. The aligner takes the OTU
  representative and the candidate and returns the pair of aligned strings, or raises.
\<close>

type_synonym abundance_record = "string \<times> int"

type_synonym aligner = "string \<Rightarrow> string \<Rightarrow> py_error + (string \<times> string)"

section \<open>read_fasta\<close>

text \<open>
  The file is the list of its lines, each with its line terminator, as iterating over the
  opened text file gives them. Characters stand for code points below 256;
  \<^verbatim>\<open>str.strip()\<close> removes the white space of Python at both ends.
\<close>

definition isspace :: "char \<Rightarrow> bool" where
  "isspace c = ((of_char c :: nat) \<in> {9, 10, 11, 12, 13, 28, 29, 30, 31, 32, 133, 160})"

definition strip :: "string \<Rightarrow> string" where
  "strip s = rev (dropWhile isspace (rev (dropWhile isspace s)))"

definition startswith_gt :: "string \<Rightarrow> bool" where
  "startswith_gt line = (case line of [] \<Rightarrow> False | c # _ \<Rightarrow> c = CHR ''>'')"

text \<open>
  The loop of \<^verbatim>\<open>read_fasta\<close> over the remaining lines, with the sequence accumulated so
  far; the result is the list of the yielded sequences. After the last line the
  accumulated sequence is yielded without a test of its length.
\<close>

fun read_fasta_loop :: "string list \<Rightarrow> int \<Rightarrow> string \<Rightarrow> string list" where
  "read_fasta_loop [] minseqlen sequence = [sequence]"
| "read_fasta_loop (line # f) minseqlen sequence =
     (if startswith_gt line then
        (if int (length sequence) \<ge> minseqlen
         then sequence # read_fasta_loop f minseqlen []
         else read_fasta_loop f minseqlen [])
      else read_fasta_loop f minseqlen (sequence @ strip line))"

definition read_fasta :: "string list \<Rightarrow> int \<Rightarrow> string list" where
  "read_fasta amplicon_file minseqlen = read_fasta_loop amplicon_file minseqlen []"

section \<open>dereplication_fulllength\<close>

text \<open>
  \<^verbatim>\<open>Counter(sequences)\<close> is a dictionary in insertion order: an association list in which a
  new key goes to the end and a known key has its count incremented in place.
\<close>

fun counter_add :: "string \<Rightarrow> (string \<times> int) list \<Rightarrow> (string \<times> int) list" where
  "counter_add s [] = [(s, 1)]"
| "counter_add s ((k, c) # kvs) =
     (if k = s then (k, c + 1) # kvs else (k, c) # counter_add s kvs)"

definition Counter :: "string list \<Rightarrow> (string \<times> int) list" where
  "Counter sequences = foldl (\<lambda>counts s. counter_add s counts) [] sequences"

text \<open>
  \<^verbatim>\<open>most_common()\<close> is \<^verbatim>\<open>sorted(items, key=itemgetter(1), reverse=True)\<close>: a stable sort
  by descending count, which is a stable sort by the negated count.
\<close>

definition most_common :: "(string \<times> int) list \<Rightarrow> (string \<times> int) list" where
  "most_common counts = sort_key (\<lambda>kv. - snd kv) counts"

text \<open>Lines 110 to 114: counting the sequences and keeping the abundant ones.\<close>

definition dereplicate :: "string list \<Rightarrow> int \<Rightarrow> abundance_record list" where
  "dereplicate sequences mincount =
     filter (\<lambda>(sequence, count). count \<ge> mincount) (most_common (Counter sequences))"

definition dereplication_fulllength ::
    "string list \<Rightarrow> int \<Rightarrow> int \<Rightarrow> abundance_record list" where
  "dereplication_fulllength amplicon_file minseqlen mincount =
     dereplicate (read_fasta amplicon_file minseqlen) mincount"

section \<open>Double-precision arithmetic\<close>

text \<open>
  The identity is a Python float, an IEEE 754 binary64 number, and each operation on
  floats returns the exact result rounded to the nearest double, ties going to the even
  significand. A double is modelled by the rational number it denotes. The numbers
  rounded here are never negative and never above 100, so neither the sign nor the
  overflow to infinity is modelled; numbers below \<open>2^-1022\<close> are rounded to the
  subnormal grid of spacing \<open>2^-1074\<close>.
\<close>

text \<open>The number of binary digits of a positive integer, 0 for the others.\<close>

function bit_length :: "int \<Rightarrow> int" where
  "bit_length n = (if n \<le> 0 then 0 else 1 + bit_length (n div 2))"
  by pat_completeness auto
termination
  by (relation "measure nat") auto

declare bit_length.simps [simp del]

definition pow2 :: "int \<Rightarrow> rat" where
  "pow2 e = (if 0 \<le> e then 2 ^ nat e else 1 / 2 ^ nat (- e))"

text \<open>
  The exponent \<open>e\<close> with \<open>2^e \<le> x < 2^(e+1)\<close> of a positive rational: the difference of
  the bit lengths of numerator and denominator, or one less.
\<close>

definition binary_exponent :: "rat \<Rightarrow> int" where
  "binary_exponent x =
     (let (p, q) = quotient_of x;
          d = bit_length p - bit_length q
      in if pow2 d \<le> x then d else d - 1)"

definition round_half_even :: "rat \<Rightarrow> int" where
  "round_half_even x =
     (let f = \<lfloor>x\<rfloor>; r = x - of_int f
      in if r < 1 / 2 then f else if 1 / 2 < r then f + 1 else if even f then f else f + 1)"

text \<open>
  Rounding to the nearest double: the significand has 53 bits, so the spacing of the
  doubles around \<open>x\<close> is \<open>2^(e-52)\<close>, with the exponent not below \<open>-1022\<close>.
\<close>

definition round_to_double :: "rat \<Rightarrow> rat" where
  "round_to_double x =
     (if x = 0 then 0
      else (let e = max (binary_exponent x) (- 1022); quantum = pow2 (e - 52)
            in of_int (round_half_even (x / quantum)) * quantum))"

section \<open>get_identity\<close>

text \<open>
  The list comprehension over \<^verbatim>\<open>range(length_align)\<close>: reading either string out of
  range raises IndexError. The result is the float \<^verbatim>\<open>(nb_id_nucleotid/length_align)*100\<close>:
  the true division of the two integers is rounded to a double, and so is its product
  with 100.
\<close>

fun identical_positions :: "string \<Rightarrow> string \<Rightarrow> nat list \<Rightarrow> py_error + nat list" where
  "identical_positions a0 a1 [] = Inr []"
| "identical_positions a0 a1 (x # xs) =
     (if x < length a0 \<and> x < length a1 then
        (case identical_positions a0 a1 xs of
           Inl e \<Rightarrow> Inl e
         | Inr ids \<Rightarrow> Inr (if a0 ! x = a1 ! x then x # ids else ids))
      else Inl IndexError)"

definition get_identity :: "string \<times> string \<Rightarrow> py_error + rat" where
  "get_identity alignment_list =
     (let length_align = length (fst alignment_list) in
      case identical_positions (fst alignment_list) (snd alignment_list) [0..<length_align] of
        Inl e \<Rightarrow> Inl e
      | Inr id_nucleotid \<Rightarrow>
          (let nb_id_nucleotid = length id_nucleotid in
           if length_align = 0 then Inl ZeroDivisionError
           else Inr (round_to_double
                  (round_to_double (of_nat nb_id_nucleotid / of_nat length_align) * 100))))"

section \<open>abundance_greedy_clustering\<close>

text \<open>Lines 148 and 149: the alignment of a representative with the candidate, scored.\<close>

definition identity_of :: "aligner \<Rightarrow> string \<Rightarrow> string \<Rightarrow> py_error + rat" where
  "identity_of al seq_OTU seq =
     (case al seq_OTU seq of Inl e \<Rightarrow> Inl e | Inr align \<Rightarrow> get_identity align)"

text \<open>
  The inner loop over \<^verbatim>\<open>list_OTU\<close>, from its first element on; the result is the value of
  \<^verbatim>\<open>flag\<close> when the loop is left, by \<^verbatim>\<open>break\<close> or at the end of the list.
\<close>

fun scan_OTU :: "aligner \<Rightarrow> abundance_record list \<Rightarrow> string \<Rightarrow> py_error + bool" where
  "scan_OTU al [] seq = Inr True"
| "scan_OTU al (seq_OTU # others) seq =
     (case identity_of al (fst seq_OTU) seq of
        Inl e \<Rightarrow> Inl e
      | Inr ident \<Rightarrow> if ident \<ge> 97 then Inr False else scan_OTU al others seq)"

text \<open>The outer loop over \<^verbatim>\<open>seq_count[1:]\<close>, with \<^verbatim>\<open>list_OTU\<close> as its state.\<close>

fun cluster_loop ::
    "aligner \<Rightarrow> abundance_record list \<Rightarrow> abundance_record list \<Rightarrow>
     py_error + abundance_record list" where
  "cluster_loop al list_OTU [] = Inr list_OTU"
| "cluster_loop al list_OTU (seq # rest) =
     (case scan_OTU al list_OTU (fst seq) of
        Inl e \<Rightarrow> Inl e
      | Inr flag \<Rightarrow> cluster_loop al (if flag then list_OTU @ [seq] else list_OTU) rest)"

text \<open>Lines 144 to 154, on the list of the dereplicated records.\<close>

definition greedy_clustering ::
    "aligner \<Rightarrow> abundance_record list \<Rightarrow> py_error + abundance_record list" where
  "greedy_clustering al seq_count =
     (case seq_count of
        [] \<Rightarrow> Inl IndexError
      | first # rest \<Rightarrow> cluster_loop al [first] rest)"

definition abundance_greedy_clustering ::
    "aligner \<Rightarrow> string list \<Rightarrow> int \<Rightarrow> int \<Rightarrow> int \<Rightarrow> int \<Rightarrow>
     py_error + abundance_record list" where
  "abundance_greedy_clustering al amplicon_file minseqlen mincount chunk_size kmer_size =
     greedy_clustering al (dereplication_fulllength amplicon_file minseqlen mincount)"

section \<open>Specification notions\<close>

text \<open>The distinct elements of a list, in the order of their first occurrences.\<close>

primrec first_occurrences :: "'a list \<Rightarrow> 'a list" where
  "first_occurrences [] = []"
| "first_occurrences (x # xs) = x # removeAll x (first_occurrences xs)"

section \<open>Lemmas on read_fasta\<close>

lemma read_fasta_loop_nonempty: "read_fasta_loop f minseqlen sequence \<noteq> []"
  by (induction f arbitrary: sequence) simp_all

lemma read_fasta_loop_butlast:
  "\<forall>s\<in>set (butlast (read_fasta_loop f minseqlen sequence)). minseqlen \<le> int (length s)"
  by (induction f arbitrary: sequence) (simp_all add: read_fasta_loop_nonempty)

section \<open>Lemmas on the counter and the sort\<close>

lemma set_first_occurrences [simp]: "set (first_occurrences xs) = set xs"
  by (induction xs) auto

lemma distinct_first_occurrences [simp]: "distinct (first_occurrences xs)"
  by (induction xs) (simp_all add: distinct_removeAll)

lemma first_occurrences_snoc:
  "first_occurrences (xs @ [s]) =
     (if s \<in> set xs then first_occurrences xs else first_occurrences xs @ [s])"
  by (induction xs) auto

lemma counter_add_map:
  "distinct ks \<Longrightarrow>
   counter_add s (map (\<lambda>k. (k, f k)) ks) =
     (if s \<in> set ks then map (\<lambda>k. (k, if k = s then f k + 1 else f k)) ks
      else map (\<lambda>k. (k, f k)) ks @ [(s, 1)])"
  by (induction ks) auto

lemma Counter_snoc: "Counter (xs @ [s]) = counter_add s (Counter xs)"
  by (simp add: Counter_def)

text \<open>
  The counter holds the distinct sequences in the order of their first occurrences, each
  with the number of its occurrences.
\<close>

lemma Counter_counts:
  "Counter sequences =
     map (\<lambda>s. (s, int (count_list sequences s))) (first_occurrences sequences)"
proof (induction sequences rule: rev_induct)
  case Nil
  then show ?case by (simp add: Counter_def)
next
  case (snoc s xs)
  show ?case
  proof (cases "s \<in> set xs")
    case True
    then show ?thesis
      by (simp add: Counter_snoc snoc.IH counter_add_map first_occurrences_snoc)
  next
    case False
    then show ?thesis
      by (auto simp add: Counter_snoc snoc.IH counter_add_map first_occurrences_snoc)
  qed
qed

lemma dereplicate_eq:
  "dereplicate sequences mincount =
     filter (\<lambda>kv. mincount \<le> snd kv)
       (sort_key (\<lambda>kv. - snd kv)
          (map (\<lambda>s. (s, int (count_list sequences s))) (first_occurrences sequences)))"
  by (simp add: dereplicate_def most_common_def Counter_counts case_prod_unfold)

lemma distinct_fst_sort_key:
  "distinct (map fst (sort_key f xs)) = distinct (map fst xs)"
proof -
  have "mset (map fst (sort_key f xs)) = mset (map fst xs)" by simp
  then show ?thesis by (rule mset_eq_imp_distinct_iff)
qed

lemma dereplicate_distinct: "distinct (map fst (dereplicate sequences mincount))"
proof -
  have "distinct (map fst (map (\<lambda>s. (s, int (count_list sequences s)))
      (first_occurrences sequences)))"
    by (simp add: comp_def)
  then show ?thesis
    unfolding dereplicate_eq by (intro distinct_map_filter) (simp only: distinct_fst_sort_key)
qed

lemma set_dereplicate:
  "set (dereplicate sequences mincount) =
     {(s, int (count_list sequences s)) | s.
        s \<in> set sequences \<and> mincount \<le> int (count_list sequences s)}"
  unfolding dereplicate_eq by auto

lemma dereplicate_sorted:
  "sorted_wrt (\<lambda>p q. snd p \<ge> snd q) (dereplicate sequences mincount)"
proof -
  let ?xs = "map (\<lambda>s. (s, int (count_list sequences s))) (first_occurrences sequences)"
  have "sorted (map (\<lambda>kv. - snd kv) (sort_key (\<lambda>kv. - snd kv) ?xs))"
    by (rule sorted_sort_key)
  then have "sorted_wrt (\<lambda>p q. snd p \<ge> snd q) (sort_key (\<lambda>kv. - snd kv) ?xs)"
    by (simp add: sorted_wrt_map)
  then show ?thesis unfolding dereplicate_eq by (rule sorted_wrt_filter)
qed

lemma dereplicate_ties:
  "map fst (filter (\<lambda>p. snd p = k) (dereplicate sequences mincount)) =
     filter (\<lambda>s. int (count_list sequences s) = k \<and> mincount \<le> k)
       (first_occurrences sequences)"
proof -
  let ?xs = "map (\<lambda>s. (s, int (count_list sequences s))) (first_occurrences sequences)"
  have "filter (\<lambda>p. snd p = k) (dereplicate sequences mincount)
        = filter (\<lambda>kv. mincount \<le> snd kv)
            (filter (\<lambda>p. - snd p = - k) (sort_key (\<lambda>kv. - snd kv) ?xs))"
    unfolding dereplicate_eq by (simp add: conj_commute)
  also have "\<dots> = filter (\<lambda>kv. mincount \<le> snd kv) (filter (\<lambda>p. - snd p = - k) ?xs)"
    by (simp only: sort_key_stable)
  finally have "map fst (filter (\<lambda>p. snd p = k) (dereplicate sequences mincount)) =
      filter (\<lambda>s. int (count_list sequences s) = k \<and> mincount \<le> int (count_list sequences s))
        (first_occurrences sequences)"
    by (simp add: filter_map comp_def conj_commute)
  also have "\<dots> = filter (\<lambda>s. int (count_list sequences s) = k \<and> mincount \<le> k)
        (first_occurrences sequences)"
    by (rule filter_cong) auto
  finally show ?thesis .
qed

section \<open>Lemmas on double-precision rounding\<close>

lemma pow2_powi: "pow2 e = 2 powi e"
  by (simp add: pow2_def power_int_def power_one_over [symmetric] inverse_eq_divide)

lemma pow2_pos: "0 < pow2 e"
  by (simp add: pow2_powi)

lemma pow2_add: "pow2 (a + b) = pow2 a * pow2 b"
  by (simp add: pow2_powi power_int_add)

lemma pow2_less: "a < b \<Longrightarrow> pow2 a < pow2 b"
  by (simp add: pow2_powi power_int_strict_increasing)

lemma pow2_le: "a \<le> b \<Longrightarrow> pow2 a \<le> pow2 b"
  by (simp add: pow2_powi power_int_increasing)

lemma pow2_less_imp: "pow2 a < pow2 b \<Longrightarrow> a < b"
  using pow2_le [of b a] by (cases "a < b") auto

lemma pow2_nat: "0 \<le> e \<Longrightarrow> pow2 e = of_int (2 ^ nat e)"
  by (simp add: pow2_def)

lemma bit_length_pos: "0 < n \<Longrightarrow> bit_length n = 1 + bit_length (n div 2)"
  by (subst bit_length.simps) simp

lemma bit_length_nonpos: "n \<le> 0 \<Longrightarrow> bit_length n = 0"
  by (subst bit_length.simps) simp

lemma bit_length_bounds:
  "0 < n \<Longrightarrow> 1 \<le> bit_length n \<and> 2 ^ nat (bit_length n - 1) \<le> n \<and> n < 2 ^ nat (bit_length n)"
proof (induction n rule: bit_length.induct)
  case (1 n)
  show ?case
  proof (cases "n div 2 = 0")
    case True
    with 1(2) have n1: "n = 1" by presburger
    have "bit_length 1 = 1" by (simp add: bit_length_pos bit_length_nonpos)
    with n1 show ?thesis by simp
  next
    case False
    with 1(2) have pos: "0 < n div 2" by presburger
    let ?k = "bit_length (n div 2)"
    from 1(1) 1(2) pos have ih: "1 \<le> ?k" "2 ^ nat (?k - 1) \<le> n div 2" "n div 2 < 2 ^ nat ?k"
      by auto
    have bl: "bit_length n = 1 + ?k" using 1(2) by (rule bit_length_pos)
    have e1: "nat (1 + ?k - 1) = Suc (nat (?k - 1))" using ih(1) by simp
    have e2: "nat (1 + ?k) = Suc (nat ?k)" using ih(1) by simp
    have "2 * (n div 2) \<le> n" by presburger
    then have lower: "2 ^ nat (1 + ?k - 1) \<le> n" using ih(2) unfolding e1 by simp
    have "n < 2 * (n div 2 + 1)" by presburger
    moreover have "n div 2 + 1 \<le> 2 ^ nat ?k" using ih(3) by simp
    ultimately have upper: "n < 2 ^ nat (1 + ?k)" unfolding e2 by simp
    show ?thesis using ih(1) lower upper unfolding bl by simp
  qed
qed

lemma bit_length_pow2:
  assumes "0 < n"
  shows "pow2 (bit_length n - 1) \<le> of_int n" and "of_int n < pow2 (bit_length n)"
proof -
  from bit_length_bounds [OF assms] have
    b: "1 \<le> bit_length n" "2 ^ nat (bit_length n - 1) \<le> n" "n < 2 ^ nat (bit_length n)"
    by auto
  have "(of_int (2 ^ nat (bit_length n - 1)) :: rat) \<le> of_int n"
    using b(2) by (simp only: of_int_le_iff)
  then show "pow2 (bit_length n - 1) \<le> of_int n" using b(1) by (simp add: pow2_nat)
  have "(of_int n :: rat) < of_int (2 ^ nat (bit_length n))"
    using b(3) by (simp only: of_int_less_iff)
  then show "of_int n < pow2 (bit_length n)" using b(1) by (simp add: pow2_nat)
qed

lemma binary_exponent_bounds:
  assumes "0 < x"
  shows "pow2 (binary_exponent x) \<le> x" and "x < pow2 (binary_exponent x + 1)"
proof -
  obtain p q where pq: "quotient_of x = (p, q)" by (cases "quotient_of x")
  then have q: "0 < q" and x: "x = of_int p / of_int q"
    by (simp_all add: quotient_of_denom_pos quotient_of_div)
  have p: "0 < p" using assms q x by (simp add: zero_less_divide_iff)
  let ?d = "bit_length p - bit_length q"
  note bp = bit_length_pow2 [OF p] and bq = bit_length_pow2 [OF q]
  have qr: "(0::rat) < of_int q" using q by simp
  have "pow2 (?d - 1) * of_int q < pow2 (?d - 1) * pow2 (bit_length q)"
    using bq(2) pow2_pos by (simp add: mult_strict_left_mono)
  also have "\<dots> = pow2 (bit_length p - 1)" by (simp add: pow2_add [symmetric])
  also have "\<dots> \<le> of_int p" by (rule bp(1))
  finally have lower: "pow2 (?d - 1) < x" using qr by (simp add: x pos_less_divide_eq)
  have "of_int p < pow2 (bit_length p)" by (rule bp(2))
  also have "\<dots> = pow2 (?d + 1) * pow2 (bit_length q - 1)" by (simp add: pow2_add [symmetric])
  also have "\<dots> \<le> pow2 (?d + 1) * of_int q"
    using bq(1) pow2_pos [of "?d + 1"] by (simp add: mult_left_mono)
  finally have upper: "x < pow2 (?d + 1)" using qr by (simp add: x pos_divide_less_eq)
  have e: "binary_exponent x = (if pow2 ?d \<le> x then ?d else ?d - 1)"
    by (simp add: binary_exponent_def pq)
  show "pow2 (binary_exponent x) \<le> x" using lower by (simp add: e)
  show "x < pow2 (binary_exponent x + 1)" using upper by (simp add: e)
qed

lemma round_half_even_error: "\<bar>of_int (round_half_even y) - y\<bar> \<le> 1 / 2"
proof -
  have "of_int \<lfloor>y\<rfloor> \<le> y" "y < of_int \<lfloor>y\<rfloor> + 1" by linarith+
  then show ?thesis by (auto simp add: round_half_even_def Let_def)
qed

lemma scaled_error:
  fixes r x u :: rat
  assumes "0 < u"
  shows "\<bar>r * u - x\<bar> = \<bar>r - x / u\<bar> * u"
proof -
  have "\<bar>r - x / u\<bar> * u = \<bar>r - x / u\<bar> * \<bar>u\<bar>" using assms by simp
  also have "\<dots> = \<bar>(r - x / u) * u\<bar>" by (simp only: abs_mult)
  also have "(r - x / u) * u = r * u - x" using assms by (simp add: left_diff_distrib)
  finally show ?thesis by simp
qed

lemma round_to_double_error:
  assumes "pow2 (- 1022) \<le> x"
  shows "\<bar>round_to_double x - x\<bar> \<le> x / 2 ^ 53"
proof -
  have x: "0 < x" using assms pow2_pos [of "- 1022"] by linarith
  let ?e = "binary_exponent x"
  note b = binary_exponent_bounds [OF x]
  have "pow2 (- 1022) < pow2 (?e + 1)" using assms b(2) by linarith
  then have "- 1022 < ?e + 1" by (rule pow2_less_imp)
  then have m: "max ?e (- 1022) = ?e" by simp
  let ?u = "pow2 (?e - 52)"
  have u: "0 < ?u" by (rule pow2_pos)
  have rd: "round_to_double x = of_int (round_half_even (x / ?u)) * ?u"
    using x by (simp add: round_to_double_def m Let_def)
  have "\<bar>round_to_double x - x\<bar> = \<bar>of_int (round_half_even (x / ?u)) - x / ?u\<bar> * ?u"
    using u unfolding rd by (rule scaled_error)
  also have "\<dots> \<le> 1 / 2 * ?u"
    using u round_half_even_error [of "x / ?u"] by (intro mult_right_mono) simp_all
  also have "\<dots> = pow2 ?e / 2 ^ 53"
  proof -
    have "pow2 ?e = pow2 (?e - 52) * pow2 52" by (simp add: pow2_add [symmetric])
    then show ?thesis by (simp add: pow2_def)
  qed
  also have "\<dots> \<le> x / 2 ^ 53" using b(1) by (simp add: divide_right_mono)
  finally show ?thesis .
qed

lemma round_to_double_0: "round_to_double 0 = 0"
  by (simp add: round_to_double_def)

lemma round_to_double_1: "round_to_double 1 = 1"
  by code_simp

lemma round_to_double_100: "round_to_double 100 = 100"
  by code_simp

lemma round_to_double_half: "round_to_double (1 / 2) = 1 / 2"
  by code_simp

lemma round_to_double_50: "round_to_double 50 = 50"
  by code_simp

lemma round_to_double_three_quarters: "round_to_double (3 / 4) = 3 / 4"
  by code_simp

lemma round_to_double_75: "round_to_double 75 = 75"
  by code_simp

lemmas double_values =
  round_to_double_0 round_to_double_1 round_to_double_100 round_to_double_half
  round_to_double_50 round_to_double_three_quarters round_to_double_75

text \<open>
  The two roundings of the percentage lose at most a relative \<open>2^-51\<close>, as long as the
  quotient is not subnormal.
\<close>

lemma percent_accuracy:
  fixes k n :: nat
  assumes n: "0 < n" and kn: "k \<le> n" and small: "n \<le> 2 ^ 1022"
  shows "\<bar>round_to_double (round_to_double (of_nat k / of_nat n) * 100)
            - 100 * of_nat k / of_nat n\<bar>
         \<le> (100 * of_nat k / of_nat n) / 2 ^ 51"
proof (cases "k = 0")
  case True
  then show ?thesis by (simp add: round_to_double_0)
next
  case False
  define x :: rat where "x = of_nat k / of_nat n"
  define q where "q = round_to_double x"
  define v where "v = round_to_double (q * 100)"
  define y :: rat where "y = x / 2 ^ 53"
  have npos: "(0::rat) < of_nat n" using n by simp
  have "(of_nat n :: rat) \<le> of_nat (2 ^ 1022)" using small by (simp only: of_nat_le_iff)
  then have nle: "(of_nat n :: rat) \<le> 2 ^ 1022" by simp
  have "(1::rat) \<le> of_nat k" using False by simp
  then have "1 / of_nat n \<le> x" using npos by (simp add: x_def divide_right_mono)
  moreover have "(1::rat) / 2 ^ 1022 \<le> 1 / of_nat n"
    using npos nle by (simp add: frac_le)
  moreover have p: "pow2 (- 1022) = 1 / 2 ^ 1022" by (simp add: pow2_def)
  ultimately have xn: "pow2 (- 1022) \<le> x" by linarith
  have xpos: "0 < x" using xn pow2_pos [of "- 1022"] by linarith
  have ypos: "0 < y" using xpos by (simp add: y_def)
  have ysmall: "y * 2 ^ 53 = x" by (simp add: y_def)
  have e1: "\<bar>q - x\<bar> \<le> y" unfolding q_def y_def using xn by (rule round_to_double_error)
  have "x \<le> q * 100" using e1 ysmall ypos by (simp add: abs_le_iff) 
  then have qn: "pow2 (- 1022) \<le> q * 100" using xn by linarith
  have e2: "\<bar>v - q * 100\<bar> \<le> q * 100 / 2 ^ 53"
    unfolding v_def using qn by (rule round_to_double_error)
  have "q \<le> x + y" using e1 by (simp add: abs_le_iff)
  then have "q * 100 / 2 ^ 53 \<le> (x + y) * 100 / 2 ^ 53"
    by (simp add: divide_right_mono)
  also have "\<dots> = 100 * y + 100 * y / 2 ^ 53" by (simp add: y_def field_simps)
  also have "\<dots> \<le> 200 * y" using ypos by simp
  finally have e3: "\<bar>v - q * 100\<bar> \<le> 200 * y" using e2 by linarith
  have "\<bar>v - 100 * x\<bar> \<le> 300 * y" using e1 e3 by (simp add: abs_le_iff)
  also have "\<dots> \<le> 400 * y" using ypos by simp
  also have "\<dots> = 100 * x / 2 ^ 51" by (simp add: y_def)
  finally show ?thesis by (simp add: v_def q_def x_def)
qed

section \<open>Lemmas on get_identity\<close>

lemma identical_positions_in_range:
  "\<forall>x\<in>set xs. x < length a0 \<and> x < length a1 \<Longrightarrow>
     identical_positions a0 a1 xs = Inr (filter (\<lambda>x. a0 ! x = a1 ! x) xs)"
  by (induction xs) simp_all

lemma get_identity_equal_length:
  assumes "length a = length b" and "a \<noteq> []"
  shows "get_identity (a, b) =
     Inr (round_to_double (round_to_double
       (of_nat (length (filter (\<lambda>x. a ! x = b ! x) [0..<length a])) / of_nat (length a))
         * 100))"
  using assms by (auto simp add: get_identity_def Let_def identical_positions_in_range)

lemma matching_card:
  "length (filter (\<lambda>x. a ! x = b ! x) [0..<n]) = card {i. i < n \<and> a ! i = b ! i}"
proof -
  have "card (set (filter (\<lambda>x. a ! x = b ! x) [0..<n]))
      = length (filter (\<lambda>x. a ! x = b ! x) [0..<n])"
    by (rule distinct_card) simp
  moreover have "set (filter (\<lambda>x. a ! x = b ! x) [0..<n]) = {i. i < n \<and> a ! i = b ! i}"
    by auto
  ultimately show ?thesis by simp
qed

section \<open>Lemmas on the clustering loops\<close>

lemma scan_OTU_first_match:
  assumes "\<forall>a\<in>set earlier. \<exists>v. identity_of al (fst a) s = Inr v \<and> v < 97"
    and "identity_of al (fst m) s = Inr v" and "97 \<le> v"
  shows "scan_OTU al (earlier @ m # later) s = Inr False"
  using assms by (induction earlier) auto

lemma scan_OTU_no_match:
  assumes "\<forall>a\<in>set otus. \<exists>v. identity_of al (fst a) s = Inr v \<and> v < 97"
  shows "scan_OTU al otus s = Inr True"
  using assms by (induction otus) auto

lemma scan_OTU_total:
  "\<forall>a\<in>set otus. \<not> isl (identity_of al (fst a) s) \<Longrightarrow> \<exists>flag. scan_OTU al otus s = Inr flag"
  by (induction otus) (auto split: sum.splits)

lemma scan_OTU_cong:
  "\<forall>a\<in>set otus. al (fst a) s = al' (fst a) s \<Longrightarrow> scan_OTU al otus s = scan_OTU al' otus s"
  by (induction otus) (auto simp add: identity_of_def split: sum.splits)

text \<open>
  The loop only ever appends: the OTU list it returns is the list it started from,
  followed by records of its input, in the order of the input.
\<close>

lemma cluster_loop_extends:
  "cluster_loop al otus recs = Inr out \<Longrightarrow> \<exists>new. out = otus @ new \<and> subseq new recs"
proof (induction recs arbitrary: otus)
  case Nil
  then show ?case by simp
next
  case (Cons r recs)
  from Cons.prems obtain flag where
    scan: "scan_OTU al otus (fst r) = Inr flag" and
    rest: "cluster_loop al (if flag then otus @ [r] else otus) recs = Inr out"
    by (auto split: sum.splits)
  from Cons.IH [OF rest] obtain new where
    new: "out = (if flag then otus @ [r] else otus) @ new" "subseq new recs"
    by blast
  show ?case
  proof (cases flag)
    case True
    then have "out = otus @ (r # new)" "subseq (r # new) (r # recs)"
      using new by simp_all
    then show ?thesis by blast
  next
    case False
    then have "out = otus @ new" "subseq new (r # recs)"
      using new by (simp_all add: list_emb_Cons)
    then show ?thesis by blast
  qed
qed

lemma cluster_loop_total:
  "\<forall>a\<in>set otus \<union> set recs. \<forall>b\<in>set recs. \<not> isl (identity_of al (fst a) (fst b)) \<Longrightarrow>
     \<exists>out. cluster_loop al otus recs = Inr out"
proof (induction recs arbitrary: otus)
  case Nil
  then show ?case by simp
next
  case (Cons r recs)
  have "\<exists>flag. scan_OTU al otus (fst r) = Inr flag"
    using Cons.prems by (intro scan_OTU_total) simp
  then obtain flag where scan: "scan_OTU al otus (fst r) = Inr flag" ..
  have "\<exists>out. cluster_loop al (if flag then otus @ [r] else otus) recs = Inr out"
    using Cons.prems by (intro Cons.IH) auto
  then show ?case using scan by simp
qed

lemma cluster_loop_cong:
  "\<forall>a\<in>set otus \<union> set recs. \<forall>b\<in>set recs. al (fst a) (fst b) = al' (fst a) (fst b) \<Longrightarrow>
     cluster_loop al otus recs = cluster_loop al' otus recs"
proof (induction recs arbitrary: otus)
  case Nil
  then show ?case by simp
next
  case (Cons r recs)
  have scan: "scan_OTU al otus (fst r) = scan_OTU al' otus (fst r)"
    using Cons.prems by (intro scan_OTU_cong) simp
  have "cluster_loop al (if flag then otus @ [r] else otus) recs
        = cluster_loop al' (if flag then otus @ [r] else otus) recs" for flag
    using Cons.prems by (intro Cons.IH) auto
  then show ?case using scan by (simp split: sum.splits)
qed

section \<open>Claims on get_identity\<close>

text \<open>
  C5. For an alignment pair of two strings of the same length, at least 1, get_identity
  returns 100 times the number of positions at which the two strings hold the same
  character, divided by the alignment length. The code computes in double precision,
  dividing first and multiplying by 100 afterwards, with a rounding after each step. On
  ACG and ACT, which agree at 2 of 3 positions, it returns 66.66666666666666, the
  double \<open>2345624805922133 / 2^45\<close>; this is neither \<open>200 / 3\<close> nor the double
  nearest to \<open>200 / 3\<close>, which is 66.66666666666667.
\<close>

theorem get_identity_formula_counterexample:
  "identical_positions ''ACG'' ''ACT'' [0, 1, 2] = Inr [0, 1]
   \<and> get_identity (''ACG'', ''ACT'') = Inr (2345624805922133 / 35184372088832)
   \<and> get_identity (''ACG'', ''ACT'') \<noteq> Inr (100 * 2 / 3)
   \<and> get_identity (''ACG'', ''ACT'') \<noteq> Inr (round_to_double (100 * 2 / 3))"
proof -
  have r: "round_to_double (round_to_double (2 / 3) * 100) = 2345624805922133 / 35184372088832"
    by code_simp
  have n: "round_to_double (100 * 2 / 3) = 4691249611844267 / 70368744177664"
    by code_simp
  have v: "get_identity (''ACG'', ''ACT'') = Inr (2345624805922133 / 35184372088832)"
    by (simp add: get_identity_def r)
  show ?thesis unfolding v n by simp
qed

text \<open>
  C5, as the code has it. For an alignment pair of two strings of the same length, at
  least 1, with \<open>k\<close> the number of positions at which the two strings hold the same
  character and \<open>n\<close> the alignment length, get_identity returns the double obtained by
  rounding \<open>k / n\<close> to a double and then rounding 100 times that double. It returns
  100.0 when the two strings are the same and 0.0 when they differ at every position,
  and for an alignment of at most \<open>2^1022\<close> characters it differs from
  \<open>100 * k / n\<close> by at most the fraction \<open>2^-51\<close> of that number.
\<close>

theorem get_identity_double:
  assumes "length a = length b" and "a \<noteq> []"
  shows "get_identity (a, b) =
           Inr (round_to_double (round_to_double
             (of_nat (card {i. i < length a \<and> a ! i = b ! i}) / of_nat (length a)) * 100))
         \<and> (a = b \<longrightarrow> get_identity (a, b) = Inr 100)
         \<and> ((\<forall>i<length a. a ! i \<noteq> b ! i) \<longrightarrow> get_identity (a, b) = Inr 0)
         \<and> (length a \<le> 2 ^ 1022 \<longrightarrow>
              (\<exists>v. get_identity (a, b) = Inr v
                 \<and> \<bar>v - 100 * of_nat (card {i. i < length a \<and> a ! i = b ! i})
                          / of_nat (length a)\<bar>
                   \<le> (100 * of_nat (card {i. i < length a \<and> a ! i = b ! i})
                          / of_nat (length a)) / 2 ^ 51))"
proof -
  let ?k = "card {i. i < length a \<and> a ! i = b ! i}"
  have eq: "get_identity (a, b) =
      Inr (round_to_double (round_to_double (of_nat ?k / of_nat (length a)) * 100))"
    using assms by (simp add: get_identity_equal_length matching_card)
  have n: "0 < length a" using assms(2) by simp
  have "?k = length (filter (\<lambda>x. a ! x = b ! x) [0..<length a])"
    by (simp only: matching_card)
  also have "\<dots> \<le> length [0..<length a]" by (rule length_filter_le)
  finally have kn: "?k \<le> length a" by simp
  have same: "get_identity (a, b) = Inr 100" if "a = b"
  proof -
    have kn: "?k = length a" using that by simp
    show ?thesis using n unfolding eq kn by (simp add: double_values)
  qed
  have diff: "get_identity (a, b) = Inr 0" if "\<forall>i<length a. a ! i \<noteq> b ! i"
  proof -
    have k0: "?k = 0" using that by auto
    show ?thesis unfolding eq k0 by (simp add: double_values)
  qed
  have acc: "\<bar>round_to_double (round_to_double (of_nat ?k / of_nat (length a)) * 100)
                - 100 * of_nat ?k / of_nat (length a)\<bar>
             \<le> (100 * of_nat ?k / of_nat (length a)) / 2 ^ 51"
    if "length a \<le> 2 ^ 1022"
    using n kn that by (rule percent_accuracy)
  show ?thesis using eq same diff acc by blast
qed

theorem get_identity_double_witness:
  "length ''ACGT'' = length ''ACGA'' \<and> ''ACGT'' \<noteq> [] \<and>
   get_identity (''ACGT'', ''ACGA'') = Inr 75 \<and>
   card {i. i < length ''ACGT'' \<and> ''ACGT'' ! i = ''ACGA'' ! i} = 3 \<and>
   get_identity (''ACGT'', ''ACGT'') = Inr 100 \<and>
   get_identity (''ACGT'', ''TGCA'') = Inr 0"
proof -
  have h1: "length ''ACGT'' = length ''ACGA''" by simp
  have h2: "''ACGT'' \<noteq> []" by simp
  have h3: "length ''ACGT'' = length ''TGCA''" by simp
  have d: "\<forall>i<length ''ACGT''. ''ACGT'' ! i \<noteq> ''TGCA'' ! i"
    by (simp add: less_Suc_eq)
  have k: "card {i. i < length ''ACGT'' \<and> ''ACGT'' ! i = ''ACGA'' ! i} = 3"
    by (simp add: matching_card [symmetric])
  from get_identity_double [OF h1 h2]
  have "get_identity (''ACGT'', ''ACGA'') =
      Inr (round_to_double (round_to_double
        (of_nat (card {i. i < length ''ACGT'' \<and> ''ACGT'' ! i = ''ACGA'' ! i})
           / of_nat (length ''ACGT'')) * 100))"
    by (rule conjunct1)
  then have v: "get_identity (''ACGT'', ''ACGA'') = Inr 75"
    unfolding k by (simp add: double_values)
  from get_identity_double [OF refl h2]
  have s: "get_identity (''ACGT'', ''ACGT'') = Inr 100" by blast
  from get_identity_double [OF h3 h2] d
  have z: "get_identity (''ACGT'', ''TGCA'') = Inr 0" by blast
  from h1 h2 v k s z show ?thesis by blast
qed

text \<open>
  C10. get_identity raises ZeroDivisionError on an alignment pair whose first string is
  empty. On two strings of the same length it raises if and only if that length is 0,
  and the only error it raises there is ZeroDivisionError.
\<close>

theorem get_identity_errors:
  "get_identity ([], b) = Inl ZeroDivisionError
   \<and> (length a = length b' \<longrightarrow>
        (isl (get_identity (a, b')) \<longleftrightarrow> length a = 0)
        \<and> (\<forall>e. get_identity (a, b') = Inl e \<longrightarrow> e = ZeroDivisionError))"
proof -
  have empty: "\<And>b. get_identity ([], b) = Inl ZeroDivisionError"
    by (simp add: get_identity_def)
  have "length a = length b' \<Longrightarrow> a \<noteq> [] \<Longrightarrow> \<not> isl (get_identity (a, b'))"
    by (simp add: get_identity_equal_length)
  then show ?thesis using empty by (cases "a = []") auto
qed

theorem get_identity_errors_witness:
  "length ''AC'' = length ''AG'' \<and> get_identity (''AC'', ''AG'') = Inr 50
   \<and> \<not> isl (get_identity (''AC'', ''AG'')) \<and> get_identity ([], []) = Inl ZeroDivisionError
   \<and> isl (get_identity ([], []))"
  using get_identity_errors [of "[]" "''AC''" "''AG''"] get_identity_errors [of "[]" "[]" "[]"]
  by (simp add: get_identity_def double_values)

section \<open>Claims on read_fasta\<close>

text \<open>
  C6. Every sequence produced by read_fasta has a length of at least minseqlen. The
  code tests the length only when it meets a header line; the sequence of the last
  record is yielded untested. On a file with the one record AC and minseqlen 4 the
  sequence AC, of length 2, is produced.
\<close>

theorem read_fasta_last_record_unfiltered:
  "read_fasta [''>s1'' @ [CHR 0x0A], ''AC'' @ [CHR 0x0A]] 4 = [''AC'']"
  by (simp add: read_fasta_def startswith_gt_def strip_def isspace_def)

section \<open>Claims on dereplication_fulllength\<close>

text \<open>
  C3. On every list of candidate sequences and every mincount, the dereplication emits
  each distinct sequence at most once, the count of each emitted record is the number
  of occurrences of its sequence in the input, and the record of a sequence of the
  input is emitted if and only if that number is at least mincount. The input of
  dereplication_fulllength is the list that read_fasta produces.
\<close>

theorem dereplication_counts:
  "distinct (map fst (dereplicate sequences mincount))
   \<and> (\<forall>(s, c) \<in> set (dereplicate sequences mincount). c = int (count_list sequences s))
   \<and> (\<forall>s. s \<in> fst ` set (dereplicate sequences mincount) \<longleftrightarrow>
            s \<in> set sequences \<and> mincount \<le> int (count_list sequences s))
   \<and> dereplication_fulllength amplicon_file minseqlen mincount =
       dereplicate (read_fasta amplicon_file minseqlen) mincount"
proof -
  have "\<forall>s. s \<in> fst ` set (dereplicate sequences mincount) \<longleftrightarrow>
            s \<in> set sequences \<and> mincount \<le> int (count_list sequences s)"
    unfolding set_dereplicate by force
  moreover have "\<forall>(s, c) \<in> set (dereplicate sequences mincount).
      c = int (count_list sequences s)"
    unfolding set_dereplicate by auto
  ultimately show ?thesis
    using dereplicate_distinct by (simp add: dereplication_fulllength_def)
qed

theorem dereplication_counts_witness:
  "dereplicate [''AAAA'', ''AAAA'', ''AAAA'', ''CCCC'', ''CCCC'', ''GGGG''] 2
     = [(''AAAA'', 3), (''CCCC'', 2)]
   \<and> distinct (map fst
        (dereplicate [''AAAA'', ''AAAA'', ''AAAA'', ''CCCC'', ''CCCC'', ''GGGG''] 2))
   \<and> ''CCCC'' \<in> fst `
        set (dereplicate [''AAAA'', ''AAAA'', ''AAAA'', ''CCCC'', ''CCCC'', ''GGGG''] 2)
   \<and> ''GGGG'' \<notin> fst `
        set (dereplicate [''AAAA'', ''AAAA'', ''AAAA'', ''CCCC'', ''CCCC'', ''GGGG''] 2)"
proof -
  have v: "dereplicate [''AAAA'', ''AAAA'', ''AAAA'', ''CCCC'', ''CCCC'', ''GGGG''] 2
     = [(''AAAA'', 3), (''CCCC'', 2)]"
    by (simp add: dereplicate_def most_common_def Counter_def)
  show ?thesis
    using dereplication_counts
      [of "[''AAAA'', ''AAAA'', ''AAAA'', ''CCCC'', ''CCCC'', ''GGGG'']" 2]
    by (simp add: v)
qed

text \<open>
  C4. The emitted records are ordered by descending count, and the records of one count
  appear in the order in which their sequences first occur in the input.
\<close>

theorem dereplication_order:
  "sorted_wrt (\<lambda>p q. snd p \<ge> snd q) (dereplicate sequences mincount)
   \<and> (\<forall>k. map fst (filter (\<lambda>p. snd p = k) (dereplicate sequences mincount)) =
            filter (\<lambda>s. int (count_list sequences s) = k \<and> mincount \<le> k)
              (first_occurrences sequences))
   \<and> dereplication_fulllength amplicon_file minseqlen mincount =
       dereplicate (read_fasta amplicon_file minseqlen) mincount"
  using dereplicate_sorted dereplicate_ties by (simp add: dereplication_fulllength_def)

theorem dereplication_order_witness:
  "dereplicate
      [''GGGG'', ''CCCC'', ''AAAA'', ''CCCC'', ''AAAA'', ''TTTT'', ''TTTT'', ''TTTT''] 2
     = [(''TTTT'', 3), (''CCCC'', 2), (''AAAA'', 2)]
   \<and> first_occurrences
      [''GGGG'', ''CCCC'', ''AAAA'', ''CCCC'', ''AAAA'', ''TTTT'', ''TTTT'', ''TTTT'']
     = [''GGGG'', ''CCCC'', ''AAAA'', ''TTTT'']"
proof -
  have v: "dereplicate
      [''GGGG'', ''CCCC'', ''AAAA'', ''CCCC'', ''AAAA'', ''TTTT'', ''TTTT'', ''TTTT''] 2
     = [(''TTTT'', 3), (''CCCC'', 2), (''AAAA'', 2)]"
    by (simp add: dereplicate_def most_common_def Counter_def)
  show ?thesis
    using dereplication_order
      [of "[''GGGG'', ''CCCC'', ''AAAA'', ''CCCC'', ''AAAA'', ''TTTT'', ''TTTT'', ''TTTT'']" 2]
    by (simp add: v)
qed

section \<open>Claims on abundance_greedy_clustering\<close>

text \<open>
  C1. When no dereplicated record passes the filters, abundance_greedy_clustering
  returns the empty OTU list and raises no error. The code reads the first element of
  the empty record list: on a file whose only sequence occurs once, with mincount 2,
  the dereplication is empty and the clustering raises IndexError, with any aligner.
\<close>

theorem clustering_empty_records_raises:
  "dereplication_fulllength [''>s1'' @ [CHR 0x0A], ''AAAA'' @ [CHR 0x0A]] 4 2 = []
   \<and> abundance_greedy_clustering al [''>s1'' @ [CHR 0x0A], ''AAAA'' @ [CHR 0x0A]] 4 2 0 0
       = Inl IndexError"
  by (simp add: abundance_greedy_clustering_def greedy_clustering_def
      dereplication_fulllength_def dereplicate_def most_common_def Counter_def
      read_fasta_def startswith_gt_def strip_def isspace_def)

text \<open>
  C2. On a non-empty list of records the first record seeds the OTU list and the loop
  runs over the others. A candidate is compared with the representatives in the order
  of the OTU list: when the representatives before some representative all score below
  97 and that one scores 97 or more, the candidate is matched whatever follows in the
  list, also where the aligner would fail on a later representative, and the OTU list
  is unchanged. When every representative scores below 97 the candidate is appended at
  the end of the OTU list. When no record is left the OTU list is returned.
\<close>

theorem greedy_first_match_assignment:
  "greedy_clustering al (first # rest) = cluster_loop al [first] rest
   \<and> ((\<forall>a\<in>set earlier. \<exists>w. identity_of al (fst a) (fst seq) = Inr w \<and> w < 97)
        \<and> (\<exists>v. identity_of al (fst m) (fst seq) = Inr v \<and> 97 \<le> v)
      \<longrightarrow> cluster_loop al (earlier @ m # later) (seq # todo)
            = cluster_loop al (earlier @ m # later) todo)
   \<and> ((\<forall>a\<in>set list_OTU. \<exists>w. identity_of al (fst a) (fst seq) = Inr w \<and> w < 97)
      \<longrightarrow> cluster_loop al list_OTU (seq # todo) = cluster_loop al (list_OTU @ [seq]) todo)
   \<and> cluster_loop al list_OTU [] = Inr list_OTU"
proof -
  have "cluster_loop al (earlier @ m # later) (seq # todo)
            = cluster_loop al (earlier @ m # later) todo"
    if "\<forall>a\<in>set earlier. \<exists>w. identity_of al (fst a) (fst seq) = Inr w \<and> w < 97"
      and "\<exists>v. identity_of al (fst m) (fst seq) = Inr v \<and> 97 \<le> v"
  proof -
    from that(2) obtain v where "identity_of al (fst m) (fst seq) = Inr v" "97 \<le> v" by blast
    with that(1) have "scan_OTU al (earlier @ m # later) (fst seq) = Inr False"
      by (rule scan_OTU_first_match)
    then show ?thesis by simp
  qed
  moreover have "cluster_loop al list_OTU (seq # todo) = cluster_loop al (list_OTU @ [seq]) todo"
    if "\<forall>a\<in>set list_OTU. \<exists>w. identity_of al (fst a) (fst seq) = Inr w \<and> w < 97"
    using scan_OTU_no_match [OF that] by simp
  ultimately show ?thesis by (simp add: greedy_clustering_def)
qed

theorem greedy_first_match_assignment_witness:
  "cluster_loop (\<lambda>a b. if a = ''GGGG'' then Inl AlignerError else Inr (a, b))
      [(''CCCC'', 5), (''AAAA'', 3), (''GGGG'', 2)] [(''AAAA'', 1)]
     = Inr [(''CCCC'', 5), (''AAAA'', 3), (''GGGG'', 2)]
   \<and> cluster_loop (\<lambda>a b. if a = ''GGGG'' then Inl AlignerError else Inr (a, b))
      [(''CCCC'', 5)] [(''AAAA'', 3)]
     = Inr [(''CCCC'', 5), (''AAAA'', 3)]
   \<and> identity_of (\<lambda>a b. if a = ''GGGG'' then Inl AlignerError else Inr (a, b)) ''GGGG'' ''AAAA''
     = Inl AlignerError"
proof -
  let ?al = "\<lambda>a b. if a = ''GGGG'' then Inl AlignerError else Inr (a, b)"
  have c: "identity_of ?al ''CCCC'' ''AAAA'' = Inr 0"
    by (simp add: identity_of_def get_identity_def double_values)
  have a: "identity_of ?al ''AAAA'' ''AAAA'' = Inr 100"
    by (simp add: identity_of_def get_identity_def double_values)
  have g: "identity_of ?al ''GGGG'' ''AAAA'' = Inl AlignerError"
    by (simp add: identity_of_def)
  have h1: "\<forall>x\<in>set [(''CCCC'', 5::int)].
      \<exists>w. identity_of ?al (fst x) (fst (''AAAA'', 1::int)) = Inr w \<and> w < 97"
    using c by simp
  have h2: "\<exists>v. identity_of ?al (fst (''AAAA'', 3::int)) (fst (''AAAA'', 1::int)) = Inr v
      \<and> 97 \<le> v"
    using a by simp
  have h3: "\<forall>x\<in>set [(''CCCC'', 5::int)].
      \<exists>w. identity_of ?al (fst x) (fst (''AAAA'', 3::int)) = Inr w \<and> w < 97"
    using c by simp
  note t = greedy_first_match_assignment
  from t [of ?al _ _ "[(''CCCC'', 5)]" "(''AAAA'', 1)" "(''AAAA'', 3)" "[(''GGGG'', 2)]" "[]"]
    h1 h2
  have m: "cluster_loop ?al ([(''CCCC'', 5)] @ (''AAAA'', 3) # [(''GGGG'', 2)]) [(''AAAA'', 1)]
      = cluster_loop ?al ([(''CCCC'', 5)] @ (''AAAA'', 3) # [(''GGGG'', 2)]) []"
    by blast
  from t [of ?al _ _ "[]" "(''AAAA'', 3)" _ _ "[]" "[(''CCCC'', 5)]"] h3
  have n: "cluster_loop ?al [(''CCCC'', 5)] [(''AAAA'', 3)]
      = cluster_loop ?al ([(''CCCC'', 5)] @ [(''AAAA'', 3)]) []"
    by blast
  show ?thesis using m n g by simp
qed

text \<open>
  C7. On a non-empty list of records, the first OTU record of the result is the first
  record of the input, sequence and count. A result exists whenever every comparison
  of two sequences of the input has an identity.
\<close>

theorem first_OTU_is_first_record:
  "(greedy_clustering al (first # rest) = Inr list_OTU \<longrightarrow>
      list_OTU \<noteq> [] \<and> hd list_OTU = first)
   \<and> ((\<forall>a\<in>set (first # rest). \<forall>b\<in>set rest. \<exists>v. identity_of al (fst a) (fst b) = Inr v) \<longrightarrow>
      (\<exists>out. greedy_clustering al (first # rest) = Inr out))"
proof -
  have "list_OTU \<noteq> [] \<and> hd list_OTU = first"
    if "greedy_clustering al (first # rest) = Inr list_OTU"
  proof -
    from that have "cluster_loop al [first] rest = Inr list_OTU"
      by (simp add: greedy_clustering_def)
    then obtain new where "list_OTU = [first] @ new"
      using cluster_loop_extends by blast
    then show ?thesis by simp
  qed
  moreover have "\<exists>out. greedy_clustering al (first # rest) = Inr out"
    if defined: "\<forall>a\<in>set (first # rest). \<forall>b\<in>set rest.
        \<exists>v. identity_of al (fst a) (fst b) = Inr v"
  proof -
    have "\<forall>a\<in>set [first] \<union> set rest. \<forall>b\<in>set rest. \<not> isl (identity_of al (fst a) (fst b))"
    proof (intro ballI)
      fix a b assume "a \<in> set [first] \<union> set rest" and b: "b \<in> set rest"
      then have "a \<in> set (first # rest)" by simp
      with defined b obtain v where "identity_of al (fst a) (fst b) = Inr v" by blast
      then show "\<not> isl (identity_of al (fst a) (fst b))" by simp
    qed
    then have "\<exists>out. cluster_loop al [first] rest = Inr out" by (rule cluster_loop_total)
    then show ?thesis by (simp add: greedy_clustering_def)
  qed
  ultimately show ?thesis by blast
qed

theorem first_OTU_is_first_record_witness:
  "greedy_clustering (\<lambda>a b. Inr (a, b)) [(''AAAA'', 3), (''CCCC'', 2)]
     = Inr [(''AAAA'', 3), (''CCCC'', 2)]
   \<and> hd [(''AAAA'', 3::int), (''CCCC'', 2)] = (''AAAA'', 3)"
proof -
  let ?al = "\<lambda>a b. Inr (a, b)"
  have v: "greedy_clustering ?al [(''AAAA'', 3), (''CCCC'', 2)]
      = Inr [(''AAAA'', 3), (''CCCC'', 2)]"
    by (simp add: greedy_clustering_def identity_of_def get_identity_def double_values)
  show ?thesis
    using first_OTU_is_first_record
      [of ?al "(''AAAA'', 3)" "[(''CCCC'', 2)]" "[(''AAAA'', 3), (''CCCC'', 2)]"] v
    by simp
qed

text \<open>
  C8. A candidate that matches an OTU is dropped: the loop goes on with the same OTU
  list. No run of the loop changes or removes a record of the OTU list it started
  from, and the records it adds are records of its input, in their order. So the final
  OTU list is a subsequence of the list of abundance records: every OTU record is the
  record that seeded it, with that record's count.
\<close>

theorem matched_candidate_discarded:
  "(scan_OTU al list_OTU (fst seq) = Inr False \<longrightarrow>
      cluster_loop al list_OTU (seq # todo) = cluster_loop al list_OTU todo)
   \<and> (cluster_loop al list_OTU seqs = Inr out \<longrightarrow>
        prefix list_OTU out \<and> subseq (drop (length list_OTU) out) seqs)
   \<and> (greedy_clustering al seq_count = Inr final \<longrightarrow> subseq final seq_count)"
proof -
  have "prefix list_OTU out \<and> subseq (drop (length list_OTU) out) seqs"
    if "cluster_loop al list_OTU seqs = Inr out"
  proof -
    from cluster_loop_extends [OF that] obtain new where
      "out = list_OTU @ new" "subseq new seqs" by blast
    then show ?thesis by simp
  qed
  moreover have "subseq final seq_count" if "greedy_clustering al seq_count = Inr final"
  proof (cases seq_count)
    case Nil
    then show ?thesis using that by (simp add: greedy_clustering_def)
  next
    case (Cons r rs)
    then have "cluster_loop al [r] rs = Inr final"
      using that by (simp add: greedy_clustering_def)
    from cluster_loop_extends [OF this] obtain new where
      "final = [r] @ new" "subseq new rs" by blast
    then show ?thesis using Cons by simp
  qed
  ultimately show ?thesis by simp
qed

theorem matched_candidate_discarded_witness:
  "greedy_clustering (\<lambda>a b. Inr (butlast a, butlast b))
      [(''AAAA'', 3), (''CCCC'', 2), (''AAAT'', 1)]
     = Inr [(''AAAA'', 3), (''CCCC'', 2)]
   \<and> scan_OTU (\<lambda>a b. Inr (butlast a, butlast b)) [(''AAAA'', 3), (''CCCC'', 2)] ''AAAT''
     = Inr False
   \<and> subseq [(''AAAA'', 3::int), (''CCCC'', 2)] [(''AAAA'', 3), (''CCCC'', 2), (''AAAT'', 1)]"
proof -
  let ?al = "\<lambda>a b. Inr (butlast a, butlast b)"
  have s: "scan_OTU ?al [(''AAAA'', 3), (''CCCC'', 2)] ''AAAT'' = Inr False"
    by (simp add: identity_of_def get_identity_def double_values)
  have v: "greedy_clustering ?al [(''AAAA'', 3), (''CCCC'', 2), (''AAAT'', 1)]
     = Inr [(''AAAA'', 3), (''CCCC'', 2)]"
    by (simp add: greedy_clustering_def identity_of_def get_identity_def double_values)
  show ?thesis
    using matched_candidate_discarded
      [of ?al _ _ _ _ _ "[(''AAAA'', 3), (''CCCC'', 2), (''AAAT'', 1)]"
        "[(''AAAA'', 3), (''CCCC'', 2)]"] s v
    by simp
qed

text \<open>
  C9. The result of the clustering is a function of the ordered list of records and of
  the alignments of the sequences of that list: two runs on the same list, with
  aligners that return the same alignment for every pair of its sequences, give the
  same result, OTU for OTU in the same order, or the same error.
\<close>

theorem greedy_clustering_deterministic:
  assumes "\<forall>a\<in>set seq_count. \<forall>b\<in>set seq_count. al (fst a) (fst b) = al' (fst a) (fst b)"
  shows "greedy_clustering al seq_count = greedy_clustering al' seq_count"
proof (cases seq_count)
  case Nil
  then show ?thesis by (simp add: greedy_clustering_def)
next
  case (Cons r rs)
  have "cluster_loop al [r] rs = cluster_loop al' [r] rs"
    using assms Cons by (intro cluster_loop_cong) auto
  then show ?thesis using Cons by (simp add: greedy_clustering_def)
qed

theorem greedy_clustering_deterministic_witness:
  "greedy_clustering (\<lambda>a b. Inr (a, b)) [(''AAAA'', 3), (''CCCC'', 2)]
     = greedy_clustering (\<lambda>a b. if length a = 4 then Inr (a, b) else Inl AlignerError)
         [(''AAAA'', 3), (''CCCC'', 2)]
   \<and> (\<lambda>a b. Inr (a, b)) ''A'' ''A''
       \<noteq> (\<lambda>a b. if length a = 4 then Inr (a, b) else Inl AlignerError) ''A'' ''A''"
proof -
  have "\<forall>a\<in>set [(''AAAA'', 3::int), (''CCCC'', 2)]. \<forall>b\<in>set [(''AAAA'', 3::int), (''CCCC'', 2)].
      (\<lambda>a b. Inr (a, b)) (fst a) (fst b)
       = (\<lambda>a b. if length a = 4 then Inr (a, b) else Inl AlignerError) (fst a) (fst b)"
    by simp
  from greedy_clustering_deterministic [OF this] show ?thesis by simp
qed

end
